theory Spec2Isabelle
  imports Main "HOL-Library.AList"
begin

section \<open>JavaScript values and objects\<close>

text \<open>
  The storage element of \<^verbatim>\<open>src/src/todo-storage.js\<close> keeps an array of plain objects.
  A property value is one of JavaScript's primitive values. Numbers are the integers
  (\<^verbatim>\<open>Date.now()\<close> and the ids read back by the views are integers; the model is exact for
  the safe integers, below \<open>2 ^ 53\<close> in absolute value), strings are lists of code units
  below 256. On these values the strict comparison \<^verbatim>\<open>===\<close> is equality.
\<close>

datatype jsval = Undefined | Null | Bool bool | Num int | Str string

text \<open>
  An object is the list of its own properties in creation order; a property name occurs
  once. Reading a property that the object does not have gives \<^verbatim>\<open>undefined\<close>; assigning
  to a property keeps its position when it exists and appends it otherwise. Property names
  are ordinary names: no array indices (which the platform enumerates first), no
  \<^verbatim>\<open>__proto__\<close>, no name that \<^verbatim>\<open>Object.prototype\<close> defines.
\<close>

type_synonym jsobj = "(string \<times> jsval) list"

definition js_get :: "jsobj \<Rightarrow> string \<Rightarrow> jsval" where
  "js_get obj k = (case map_of obj k of None \<Rightarrow> Undefined | Some v \<Rightarrow> v)"

definition js_set :: "jsobj \<Rightarrow> string \<Rightarrow> jsval \<Rightarrow> jsobj" where
  "js_set obj k v = AList.update k v obj"

text \<open>The property names that \<^verbatim>\<open>for ( k in obj )\<close> visits.\<close>

definition keys :: "jsobj \<Rightarrow> string list" where
  "keys obj = map fst obj"

text \<open>The value of a condition: \<^verbatim>\<open>if ( v )\<close>.\<close>

fun truthy :: "jsval \<Rightarrow> bool" where
  "truthy Undefined = False"
| "truthy Null = False"
| "truthy (Bool b) = b"
| "truthy (Num n) = (n \<noteq> 0)"
| "truthy (Str s) = (s \<noteq> [])"

text \<open>
  \<^verbatim>\<open>String.prototype.trim\<close>: the white space and line terminator code units below 256
  are tab, line feed, vertical tab, form feed, carriage return, space and no-break space.
\<close>

definition is_space :: "char \<Rightarrow> bool" where
  "is_space c \<longleftrightarrow> (of_char c :: nat) \<in> {9, 10, 11, 12, 13, 32, 160}"

definition trim :: "string \<Rightarrow> string" where
  "trim s = rev (dropWhile is_space (rev (dropWhile is_space s)))"

section \<open>JSON text\<close>

text \<open>
  \<^verbatim>\<open>JSON.stringify\<close> on an array of objects whose properties are primitive values.
  A string is quoted; the quotation mark, the backslash and the control characters are
  escaped. A property whose value is \<^verbatim>\<open>undefined\<close> is left out.
\<close>

definition hex_digit :: "nat \<Rightarrow> char" where
  "hex_digit n = ''0123456789abcdef'' ! (n mod 16)"

definition escape_char :: "char \<Rightarrow> string" where
  "escape_char c =
     (let n = (of_char c :: nat) in
      if n = 34 then [CHR 0x5C, CHR 0x22]
      else if n = 92 then [CHR 0x5C, CHR 0x5C]
      else if n = 8 then [CHR 0x5C, CHR ''b'']
      else if n = 12 then [CHR 0x5C, CHR ''f'']
      else if n = 10 then [CHR 0x5C, CHR ''n'']
      else if n = 13 then [CHR 0x5C, CHR ''r'']
      else if n = 9 then [CHR 0x5C, CHR ''t'']
      else if n < 32 then [CHR 0x5C, CHR ''u'', CHR ''0'', CHR ''0'', hex_digit (n div 16), hex_digit n]
      else [c])"

definition quote :: "string \<Rightarrow> string" where
  "quote s = CHR 0x22 # concat (map escape_char s) @ [CHR 0x22]"

fun digits :: "nat \<Rightarrow> string" where
  "digits n = (if n < 10 then [char_of (48 + n)] else digits (n div 10) @ [char_of (48 + n mod 10)])"

declare digits.simps [simp del]

definition show_int :: "int \<Rightarrow> string" where
  "show_int n = (if n < 0 then CHR ''-'' # digits (nat (- n)) else digits (nat n))"

fun stringify_value :: "jsval \<Rightarrow> string" where
  "stringify_value Undefined = []"
| "stringify_value Null = ''null''"
| "stringify_value (Bool b) = (if b then ''true'' else ''false'')"
| "stringify_value (Num n) = show_int n"
| "stringify_value (Str s) = quote s"

fun join :: "string list \<Rightarrow> string" where
  "join [] = []"
| "join [x] = x"
| "join (x # y # ys) = x @ CHR '','' # join (y # ys)"

definition stringify_member :: "string \<times> jsval \<Rightarrow> string" where
  "stringify_member m = quote (fst m) @ CHR '':'' # stringify_value (snd m)"

definition stringify_object :: "jsobj \<Rightarrow> string" where
  "stringify_object obj =
     CHR ''{'' # join (map stringify_member (filter (\<lambda>m. snd m \<noteq> Undefined) obj)) @ [CHR ''}'']"

definition JSON_stringify :: "jsobj list \<Rightarrow> string" where
  "JSON_stringify todos = CHR ''['' # join (map stringify_object todos) @ [CHR '']'']"

text \<open>
  \<^verbatim>\<open>JSON.parse\<close> on text that denotes an array of objects whose properties are primitive
  values with integer numbers. Any other text (malformed JSON, on which the platform throws
  \<^verbatim>\<open>SyntaxError\<close>, but also text with nested values, fractions or exponents, or escapes
  of code units from 256 on) is outside the model and read as a failure.
\<close>

definition json_ws :: "char \<Rightarrow> bool" where
  "json_ws c \<longleftrightarrow> (of_char c :: nat) \<in> {9, 10, 13, 32}"

definition skip_ws :: "string \<Rightarrow> string" where
  "skip_ws s = dropWhile json_ws s"

definition hex_val :: "char \<Rightarrow> nat option" where
  "hex_val c =
     (let n = (of_char c :: nat) in
      if 48 \<le> n \<and> n \<le> 57 then Some (n - 48)
      else if 97 \<le> n \<and> n \<le> 102 then Some (n - 87)
      else if 65 \<le> n \<and> n \<le> 70 then Some (n - 55)
      else None)"

definition unescape :: "char \<Rightarrow> char option" where
  "unescape e =
     (if e = CHR 0x22 \<or> e = CHR 0x5C \<or> e = CHR ''/'' then Some e
      else if e = CHR ''b'' then Some (CHR 0x08)
      else if e = CHR ''f'' then Some (CHR 0x0C)
      else if e = CHR ''n'' then Some (CHR 0x0A)
      else if e = CHR ''r'' then Some (CHR 0x0D)
      else if e = CHR ''t'' then Some (CHR 0x09)
      else None)"

definition cons_result :: "'a \<Rightarrow> ('a list \<times> 'b) option \<Rightarrow> ('a list \<times> 'b) option" where
  "cons_result x r = map_option (\<lambda>p. (x # fst p, snd p)) r"

text \<open>The characters of a string after its opening quotation mark, up to the closing one.\<close>

fun parse_chars :: "string \<Rightarrow> (string \<times> string) option" where
  "parse_chars [] = None"
| "parse_chars (c # cs) =
     (if c = CHR 0x22 then Some ([], cs)
      else if c = CHR 0x5C then
        (case cs of
           [] \<Rightarrow> None
         | e # r \<Rightarrow>
             if e = CHR ''u'' then
               (case r of
                  h1 # h2 # h3 # h4 # r' \<Rightarrow>
                    (case (hex_val h1, hex_val h2, hex_val h3, hex_val h4) of
                       (Some a, Some b, Some x, Some y) \<Rightarrow>
                         if a = 0 \<and> b = 0 then cons_result (char_of (16 * x + y)) (parse_chars r')
                         else None
                     | _ \<Rightarrow> None)
                | _ \<Rightarrow> None)
             else (case unescape e of
                     None \<Rightarrow> None
                   | Some d \<Rightarrow> cons_result d (parse_chars r)))
      else if (of_char c :: nat) < 32 then None
      else cons_result c (parse_chars cs))"

definition is_digit :: "char \<Rightarrow> bool" where
  "is_digit c \<longleftrightarrow> 48 \<le> (of_char c :: nat) \<and> (of_char c :: nat) \<le> 57"

definition digits_val :: "string \<Rightarrow> nat" where
  "digits_val ds = foldl (\<lambda>a c. 10 * a + (of_char c - 48)) 0 ds"

definition parse_number :: "string \<Rightarrow> (int \<times> string) option" where
  "parse_number s =
     (let neg = (s \<noteq> [] \<and> hd s = CHR ''-'');
          s1 = (if neg then tl s else s);
          ds = takeWhile is_digit s1;
          r = dropWhile is_digit s1
      in if ds = [] \<or> (1 < length ds \<and> hd ds = CHR ''0'') then None
         else if r \<noteq> [] \<and> hd r \<in> {CHR ''.'', CHR ''e'', CHR ''E''} then None
         else Some (if neg then - int (digits_val ds) else int (digits_val ds), r))"

fun strip_prefix :: "string \<Rightarrow> string \<Rightarrow> string option" where
  "strip_prefix [] s = Some s"
| "strip_prefix (p # ps) [] = None"
| "strip_prefix (p # ps) (c # cs) = (if p = c then strip_prefix ps cs else None)"

definition parse_value :: "string \<Rightarrow> (jsval \<times> string) option" where
  "parse_value s =
     (case s of
        [] \<Rightarrow> None
      | c # r \<Rightarrow>
          if c = CHR 0x22 then map_option (\<lambda>p. (Str (fst p), snd p)) (parse_chars r)
          else (case strip_prefix ''null'' s of
                  Some r1 \<Rightarrow> Some (Null, r1)
                | None \<Rightarrow>
                   (case strip_prefix ''true'' s of
                      Some r2 \<Rightarrow> Some (Bool True, r2)
                    | None \<Rightarrow>
                       (case strip_prefix ''false'' s of
                          Some r3 \<Rightarrow> Some (Bool False, r3)
                        | None \<Rightarrow> map_option (\<lambda>p. (Num (fst p), snd p)) (parse_number s)))))"

text \<open>One \<^verbatim>\<open>"name": value\<close> pair.\<close>

definition parse_member :: "string \<Rightarrow> ((string \<times> jsval) \<times> string) option" where
  "parse_member s =
     (case s of
        [] \<Rightarrow> None
      | c # r \<Rightarrow>
          if c \<noteq> CHR 0x22 then None
          else (case parse_chars r of
                  None \<Rightarrow> None
                | Some (k, r1) \<Rightarrow>
                   (case skip_ws r1 of
                      [] \<Rightarrow> None
                    | d # r2 \<Rightarrow>
                        if d \<noteq> CHR '':'' then None
                        else (case parse_value (skip_ws r2) of
                                None \<Rightarrow> None
                              | Some (v, r3) \<Rightarrow> Some ((k, v), r3)))))"

text \<open>
  The pairs of an object after its opening brace, and the objects of an array after its
  opening bracket. Each round reads at least one character, so the length of the text is
  fuel enough for the whole of it. A name that occurs twice keeps its first position and
  its last value.
\<close>

fun parse_members :: "nat \<Rightarrow> jsobj \<Rightarrow> string \<Rightarrow> (jsobj \<times> string) option" where
  "parse_members 0 acc s = None"
| "parse_members (Suc n) acc s =
     (case parse_member s of
        None \<Rightarrow> None
      | Some ((k, v), r) \<Rightarrow>
         (case skip_ws r of
            [] \<Rightarrow> None
          | c # r' \<Rightarrow>
              if c = CHR '','' then parse_members n (js_set acc k v) (skip_ws r')
              else if c = CHR ''}'' then Some (js_set acc k v, r')
              else None))"

definition parse_object :: "string \<Rightarrow> (jsobj \<times> string) option" where
  "parse_object s =
     (case s of
        [] \<Rightarrow> None
      | c # r \<Rightarrow>
          if c \<noteq> CHR ''{'' then None
          else (case skip_ws r of
                  [] \<Rightarrow> None
                | d # r' \<Rightarrow>
                    if d = CHR ''}'' then Some ([], r')
                    else parse_members (Suc (length r')) [] (d # r')))"

fun parse_elements :: "nat \<Rightarrow> string \<Rightarrow> (jsobj list \<times> string) option" where
  "parse_elements 0 s = None"
| "parse_elements (Suc n) s =
     (case parse_object s of
        None \<Rightarrow> None
      | Some (obj, r) \<Rightarrow>
         (case skip_ws r of
            [] \<Rightarrow> None
          | c # r' \<Rightarrow>
              if c = CHR '','' then cons_result obj (parse_elements n (skip_ws r'))
              else if c = CHR '']'' then Some ([obj], r')
              else None))"

definition JSON_parse :: "string \<Rightarrow> jsobj list option" where
  "JSON_parse s =
     (case skip_ws s of
        [] \<Rightarrow> None
      | c # r \<Rightarrow>
          if c \<noteq> CHR ''['' then None
          else (case skip_ws r of
                  [] \<Rightarrow> None
                | d # r' \<Rightarrow>
                    if d = CHR '']'' then (if skip_ws r' = [] then Some [] else None)
                    else (case parse_elements (Suc (length r')) (d # r') of
                            None \<Rightarrow> None
                          | Some (xs, r'') \<Rightarrow> if skip_ws r'' = [] then Some xs else None)))"

section \<open>The storage element\<close>

text \<open>
  The state of a \<^verbatim>\<open><todo-storage>\<close> element, from \<^verbatim>\<open>initialize\<close>: the name of its item,
  the array \<^verbatim>\<open>liveTodos\<close> (absent until the first write) and the browser's
  \<^verbatim>\<open>window.localStorage\<close>, a map from item names to text. The storage quota is not
  modelled: \<^verbatim>\<open>setItem\<close> always succeeds. Dispatching an event does not touch this state
  (the listeners of \<^verbatim>\<open>src/src/todo-app.js\<close> only update the views), so the
  \<^verbatim>\<open>dispatch\<close> calls are left out. The operations change the cached array and its
  records in place, and always before they store it, so the model passes arrays and
  records as values; it takes the callers not to write to the records they are handed.
\<close>

record todo_storage =
  name :: string
  liveTodos :: "jsobj list option"
  localStorage :: "string \<rightharpoonup> string"

definition DEFAULT_NAME :: string where
  "DEFAULT_NAME = ''todo-storage''"

definition or_else :: "string option \<Rightarrow> string \<Rightarrow> string" where
  "or_else a b = (case a of None \<Rightarrow> b | Some x \<Rightarrow> if x = [] then b else x)"

definition initialize :: "string option \<Rightarrow> string option \<Rightarrow> (string \<rightharpoonup> string) \<Rightarrow> todo_storage" where
  "initialize arg attr store =
     \<lparr>name = or_else arg (or_else attr DEFAULT_NAME), liveTodos = None, localStorage = store\<rparr>"

text \<open>
  What an operation can fail with: \<^verbatim>\<open>JSON.parse\<close> throws on the stored text, \<^verbatim>\<open>addTodo\<close>
  throws its \<^verbatim>\<open>Error\<close> on an empty title (the spec's ValidationError), \<^verbatim>\<open>updateTodo\<close>
  returns a promise rejected with the update (the spec's NotFoundError). A mutating
  operation returns its outcome together with the state it leaves behind.
\<close>

datatype error = SyntaxError | ValidationError | NotFoundError jsobj

definition getLocalStorage :: "todo_storage \<Rightarrow> error + jsobj list" where
  "getLocalStorage s =
     (case liveTodos s of
        Some todos \<Rightarrow> Inr todos
      | None \<Rightarrow>
         (case JSON_parse (or_else (localStorage s (name s)) ''[]'') of
            None \<Rightarrow> Inl SyntaxError
          | Some todos \<Rightarrow> Inr todos))"

definition setLocalStorage :: "jsobj list \<Rightarrow> todo_storage \<Rightarrow> todo_storage" where
  "setLocalStorage todos s =
     s\<lparr>liveTodos := Some todos,
       localStorage := (localStorage s)(name s \<mapsto> JSON_stringify todos)\<rparr>"

text \<open>
  The callback of \<^verbatim>\<open>find\<close>: the loop over the names of the query returns false at the
  first property on which the query and the item differ.
\<close>

fun query_loop :: "string list \<Rightarrow> jsobj \<Rightarrow> jsobj \<Rightarrow> bool" where
  "query_loop [] query todo = True"
| "query_loop (k # ks) query todo =
     (if js_get query k \<noteq> js_get todo k then False else query_loop ks query todo)"

definition find_todos :: "jsobj option \<Rightarrow> todo_storage \<Rightarrow> error + jsobj list" where
  "find_todos query s =
     (case getLocalStorage s of
        Inl e \<Rightarrow> Inl e
      | Inr todos \<Rightarrow>
         (let q = (case query of None \<Rightarrow> [] | Some q' \<Rightarrow> q')
          in Inr (filter (\<lambda>todo. query_loop (keys q) q todo) todos)))"

text \<open>
  \<^verbatim>\<open>updateTodo\<close>: the inner loop copies every property of the update onto the item,
  the outer loop runs over the indices and stops at the first item with the id of the
  update. The array and the item are changed in place; the model returns both.
\<close>

definition assign :: "jsobj \<Rightarrow> jsobj \<Rightarrow> jsobj" where
  "assign item update = fold (\<lambda>k it. js_set it k (js_get update k)) (keys update) item"

function updateTodo_loop :: "nat \<Rightarrow> jsobj list \<Rightarrow> jsobj \<Rightarrow> jsobj list \<times> jsobj option" where
  "updateTodo_loop i todos update =
     (if i < length todos then
        (if js_get (todos ! i) ''id'' = js_get update ''id'' then
           (let item = assign (todos ! i) update in (todos[i := item], Some item))
         else updateTodo_loop (Suc i) todos update)
      else (todos, None))"
  by pat_completeness auto
termination
  by (relation "measure (\<lambda>(i, todos, update). length todos - i)") auto

declare updateTodo_loop.simps [simp del]

definition updateTodo :: "jsobj \<Rightarrow> todo_storage \<Rightarrow> (error + jsobj) \<times> todo_storage" where
  "updateTodo update s =
     (case getLocalStorage s of
        Inl e \<Rightarrow> (Inl e, s)
      | Inr todos \<Rightarrow>
         (case updateTodo_loop 0 todos update of
            (todos', Some item) \<Rightarrow> (Inr item, setLocalStorage todos' s)
          | (todos', None) \<Rightarrow> (Inl (NotFoundError update), s)))"

text \<open>
  \<^verbatim>\<open>addTodo\<close>, with the value of \<^verbatim>\<open>Date.now()\<close> as a parameter. The stored array is read
  before the title is checked.
\<close>

definition addTodo :: "jsval \<Rightarrow> int \<Rightarrow> todo_storage \<Rightarrow> (error + jsobj) \<times> todo_storage" where
  "addTodo title now s =
     (let item = [(''title'', title), (''id'', Num now), (''completed'', Bool False)]
      in case getLocalStorage s of
           Inl e \<Rightarrow> (Inl e, s)
         | Inr todos \<Rightarrow>
            (if (case title of Str t \<Rightarrow> length (trim t) = 0 | _ \<Rightarrow> True)
             then (Inl ValidationError, s)
             else (Inr item, setLocalStorage (todos @ [item]) s)))"

definition removeTodo :: "jsval \<Rightarrow> todo_storage \<Rightarrow> (error + jsobj list) \<times> todo_storage" where
  "removeTodo id' s =
     (case getLocalStorage s of
        Inl e \<Rightarrow> (Inl e, s)
      | Inr stored \<Rightarrow>
         (let todos = filter (\<lambda>todo. js_get todo ''id'' \<noteq> id') stored
          in (Inr todos, setLocalStorage todos s)))"

text \<open>\<^verbatim>\<open>count\<close>: one pass over the result of \<^verbatim>\<open>find()\<close>.\<close>

record counts =
  total :: int
  completed :: int
  active :: int

function count_loop :: "nat \<Rightarrow> nat \<Rightarrow> jsobj list \<Rightarrow> int \<Rightarrow> int" where
  "count_loop i n todos c =
     (if i < n then
        count_loop (Suc i) n todos (if truthy (js_get (todos ! i) ''completed'') then c + 1 else c)
      else c)"
  by pat_completeness auto
termination
  by (relation "measure (\<lambda>(i, n, todos, c). n - i)") auto

declare count_loop.simps [simp del]

definition count :: "todo_storage \<Rightarrow> error + counts" where
  "count s =
     (case find_todos None s of
        Inl e \<Rightarrow> Inl e
      | Inr todos \<Rightarrow>
         (let n = length todos; c = count_loop 0 n todos 0
          in Inr \<lparr>total = int n, completed = c, active = int n - c\<rparr>))"

section \<open>Task records and the collection\<close>

text \<open>
  A task record has exactly the properties \<^verbatim>\<open>id\<close> (a number), \<^verbatim>\<open>title\<close> (a string) and
  \<^verbatim>\<open>completed\<close> (a boolean), in any order.
\<close>

definition task_record :: "jsobj \<Rightarrow> bool" where
  "task_record t \<longleftrightarrow>
     distinct (keys t) \<and> set (keys t) = {''title'', ''id'', ''completed''} \<and>
     (case js_get t ''id'' of Num n \<Rightarrow> True | _ \<Rightarrow> False) \<and>
     (case js_get t ''title'' of Str x \<Rightarrow> True | _ \<Rightarrow> False) \<and>
     (case js_get t ''completed'' of Bool b \<Rightarrow> True | _ \<Rightarrow> False)"

text \<open>
  What the stored text keeps of an object: its properties, when no name occurs twice and
  no value is \<^verbatim>\<open>undefined\<close>.
\<close>

definition storable :: "jsobj \<Rightarrow> bool" where
  "storable obj \<longleftrightarrow> distinct (keys obj) \<and> Undefined \<notin> snd ` set obj"

text \<open>The title check of \<^verbatim>\<open>addTodo\<close>: a string that is not empty once trimmed.\<close>

definition valid_title :: "jsval \<Rightarrow> bool" where
  "valid_title v = (case v of Str t \<Rightarrow> trim t \<noteq> [] | _ \<Rightarrow> False)"

definition titles_valid :: "jsobj list \<Rightarrow> bool" where
  "titles_valid todos = list_all (\<lambda>t. valid_title (js_get t ''title'')) todos"

text \<open>Two task records and two stores that hold them, for the examples below.\<close>

abbreviation taskA :: jsobj where
  "taskA \<equiv> [(''title'', Str ''A''), (''id'', Num 1), (''completed'', Bool False)]"

abbreviation taskB :: jsobj where
  "taskB \<equiv> [(''title'', Str ''B''), (''id'', Num 2), (''completed'', Bool True)]"

abbreviation store1 :: todo_storage where
  "store1 \<equiv> setLocalStorage [taskA] (initialize None None Map.empty)"

abbreviation store2 :: todo_storage where
  "store2 \<equiv> setLocalStorage [taskA, taskB] (initialize None None Map.empty)"

section \<open>Properties of the operations\<close>

subsection \<open>Objects, the cache and the loops\<close>

lemma js_get_js_set: "js_get (js_set obj k v) k' = (if k' = k then v else js_get obj k')"
  by (simp add: js_get_def js_set_def update_conv')

lemma getLocalStorage_setLocalStorage: "getLocalStorage (setLocalStorage todos s) = Inr todos"
  by (simp add: getLocalStorage_def setLocalStorage_def)

lemma query_loop_iff: "query_loop ks q t \<longleftrightarrow> (\<forall>k\<in>set ks. js_get q k = js_get t k)"
  by (induction ks) auto

lemma js_get_fold_set:
  "js_get (fold (\<lambda>k it. js_set it k (f k)) ks item) k' = (if k' \<in> set ks then f k' else js_get item k')"
  by (induction ks arbitrary: item) (auto simp: js_get_js_set)

lemma js_get_assign:
  "js_get (assign item update) k = (if k \<in> set (keys update) then js_get update k else js_get item k)"
  by (simp add: assign_def js_get_fold_set)

lemma updateTodo_loop_end:
  "\<not> i < length todos \<Longrightarrow> updateTodo_loop i todos update = (todos, None)"
  by (subst updateTodo_loop.simps) simp

lemma updateTodo_loop_miss:
  "i < length todos \<Longrightarrow> js_get (todos ! i) ''id'' \<noteq> js_get update ''id'' \<Longrightarrow>
   updateTodo_loop i todos update = updateTodo_loop (Suc i) todos update"
  by (subst updateTodo_loop.simps) simp

lemma updateTodo_loop_hit:
  "i < length todos \<Longrightarrow> js_get (todos ! i) ''id'' = js_get update ''id'' \<Longrightarrow>
   updateTodo_loop i todos update =
     (todos[i := assign (todos ! i) update], Some (assign (todos ! i) update))"
  by (subst updateTodo_loop.simps) (simp add: Let_def)

lemma updateTodo_loop_none:
  "(\<And>m. i \<le> m \<Longrightarrow> m < length todos \<Longrightarrow> js_get (todos ! m) ''id'' \<noteq> js_get update ''id'')
   \<Longrightarrow> updateTodo_loop i todos update = (todos, None)"
proof (induction i todos update rule: updateTodo_loop.induct)
  case (1 i todos update)
  show ?case
  proof (cases "i < length todos")
    case True
    then have ne: "js_get (todos ! i) ''id'' \<noteq> js_get update ''id''"
      using "1.prems" by simp
    have "updateTodo_loop (Suc i) todos update = (todos, None)"
      using "1.IH" [OF True ne] "1.prems" by simp
    then show ?thesis
      using True ne by (simp add: updateTodo_loop_miss)
  next
    case False
    then show ?thesis by (simp add: updateTodo_loop_end)
  qed
qed

lemma updateTodo_loop_found:
  "i \<le> j \<Longrightarrow> j < length todos \<Longrightarrow> js_get (todos ! j) ''id'' = js_get update ''id'' \<Longrightarrow>
   (\<And>m. i \<le> m \<Longrightarrow> m < j \<Longrightarrow> js_get (todos ! m) ''id'' \<noteq> js_get update ''id'')
   \<Longrightarrow> updateTodo_loop i todos update =
        (todos[j := assign (todos ! j) update], Some (assign (todos ! j) update))"
proof (induction i todos update rule: updateTodo_loop.induct)
  case (1 i todos update)
  have lt: "i < length todos" using "1.prems" by simp
  show ?case
  proof (cases "i = j")
    case True
    then show ?thesis
      using "1.prems" by (simp add: updateTodo_loop_hit)
  next
    case False
    then have ij: "Suc i \<le> j" using "1.prems" by simp
    have ne: "js_get (todos ! i) ''id'' \<noteq> js_get update ''id''"
      using "1.prems"(4) [of i] False "1.prems"(1) by simp
    have "updateTodo_loop (Suc i) todos update =
        (todos[j := assign (todos ! j) update], Some (assign (todos ! j) update))"
      using "1.IH" [OF lt ne ij "1.prems"(2,3)] "1.prems"(4) by simp
    then show ?thesis
      using lt ne by (simp add: updateTodo_loop_miss)
  qed
qed

lemma count_loop_eq:
  "n = length todos \<Longrightarrow> i \<le> n \<Longrightarrow>
   count_loop i n todos c =
     c + int (length (filter (\<lambda>t. truthy (js_get t ''completed'')) (drop i todos)))"
proof (induction i n todos c rule: count_loop.induct)
  case (1 i n todos c)
  show ?case
  proof (cases "i < n")
    case True
    then have d: "drop i todos = todos ! i # drop (Suc i) todos"
      using "1.prems" by (simp add: Cons_nth_drop_Suc)
    have step: "count_loop i n todos c =
        count_loop (Suc i) n todos (if truthy (js_get (todos ! i) ''completed'') then c + 1 else c)"
      using True by (subst count_loop.simps) simp
    show ?thesis
      using True "1.IH" [OF True] "1.prems" d step by simp
  next
    case False
    then have "count_loop i n todos c = c"
      by (subst count_loop.simps) simp
    then show ?thesis using False "1.prems" by simp
  qed
qed

lemma getLocalStorage_initialize: "getLocalStorage (initialize arg attr Map.empty) = Inr []"
  by (simp add: getLocalStorage_def initialize_def or_else_def JSON_parse_def skip_ws_def
      json_ws_def)

lemma trim_A: "trim ''A'' \<noteq> []" "trim ''B'' \<noteq> []"
  by (simp_all add: trim_def is_space_def)

lemma count_eq:
  assumes "getLocalStorage s = Inr todos"
  shows "count s = Inr \<lparr>total = int (length todos),
      completed = int (length (filter (\<lambda>t. truthy (js_get t ''completed'')) todos)),
      active = int (length todos) - int (length (filter (\<lambda>t. truthy (js_get t ''completed'')) todos))\<rparr>"
  using assms by (simp add: count_def find_todos_def keys_def Let_def count_loop_eq)

lemma titles_valid_addTodo:
  assumes "getLocalStorage s = Inr todos" and "titles_valid todos"
    and "addTodo title now s = (Inr item, s')"
  shows "getLocalStorage s' = Inr (todos @ [item]) \<and> titles_valid (todos @ [item])"
proof -
  obtain t where t: "title = Str t" "trim t \<noteq> []"
    using assms(1,3) by (cases title) (auto simp: addTodo_def Let_def split: if_splits)
  then show ?thesis
    using assms
    by (auto simp: addTodo_def Let_def getLocalStorage_setLocalStorage titles_valid_def
        valid_title_def js_get_def)
qed

lemma titles_valid_removeTodo:
  assumes "getLocalStorage s = Inr todos" and "titles_valid todos"
  shows "\<exists>todos'. getLocalStorage (snd (removeTodo i s)) = Inr todos' \<and> titles_valid todos'"
  using assms
  by (auto simp: removeTodo_def Let_def getLocalStorage_setLocalStorage titles_valid_def
      list_all_iff)

subsection \<open>Reading back what \<^verbatim>\<open>JSON.stringify\<close> wrote\<close>

lemma char_eq_code: "c = d \<longleftrightarrow> (of_char c :: nat) = of_char d"
  by simp

lemma cons_result_Some: "cons_result x (Some (xs, r)) = Some (x # xs, r)"
  by (simp add: cons_result_def)

lemma hex_val_hex_digit: "m < 16 \<Longrightarrow> hex_val (hex_digit m) = Some m"
proof -
  assume "m < 16"
  then have "m = 0 \<or> m = 1 \<or> m = 2 \<or> m = 3 \<or> m = 4 \<or> m = 5 \<or> m = 6 \<or> m = 7 \<or> m = 8
      \<or> m = 9 \<or> m = 10 \<or> m = 11 \<or> m = 12 \<or> m = 13 \<or> m = 14 \<or> m = 15"
    by arith
  then show ?thesis
    by (auto simp: hex_val_def hex_digit_def)
qed

lemma parse_chars_close: "parse_chars (CHR 0x22 # r) = Some ([], r)"
  by simp

lemma parse_chars_escape:
  "parse_chars (escape_char c @ r) = cons_result c (parse_chars r)"
proof -
  let ?n = "of_char c :: nat"
  consider "?n = 34" | "?n = 92" | "?n = 8" | "?n = 12" | "?n = 10" | "?n = 13" | "?n = 9"
    | "?n < 32" "?n \<notin> {8, 9, 10, 12, 13}" | "32 \<le> ?n" "?n \<noteq> 34" "?n \<noteq> 92"
    by fastforce
  then show ?thesis
  proof cases
    case 8
    have lo: "?n mod 16 < 16" "?n div 16 < 16" using 8 by simp_all
    have c: "char_of (16 * (?n div 16) + ?n mod 16) = c" by simp
    have e: "escape_char c = [CHR 0x5C, CHR ''u'', CHR ''0'', CHR ''0'', hex_digit (?n div 16), hex_digit ?n]"
      using 8 by (simp add: escape_char_def Let_def)
    have h0: "hex_val CHR ''0'' = Some 0" by (simp add: hex_val_def)
    have h1: "hex_val (hex_digit (?n div 16)) = Some (?n div 16)"
      using lo by (simp add: hex_val_hex_digit)
    have h2: "hex_val (hex_digit ?n) = Some (?n mod 16)"
      using hex_val_hex_digit [of "?n mod 16"] by (simp add: hex_digit_def)
    show ?thesis
      by (simp add: e h0 h1 h2 c)
  next
    case 9
    then have "c \<noteq> CHR 0x22" "c \<noteq> CHR 0x5C" by auto
    then show ?thesis using 9 by (simp add: escape_char_def Let_def)
  next
    case 1
    then have "c = CHR 0x22" by (simp add: char_eq_code [of c] del: of_char_eq_iff)
    then show ?thesis by (simp add: escape_char_def unescape_def)
  next
    case 2
    then have "c = CHR 0x5C" by (simp add: char_eq_code [of c] del: of_char_eq_iff)
    then show ?thesis by (simp add: escape_char_def unescape_def)
  next
    case 3
    then have "c = CHR 0x08" by (simp add: char_eq_code [of c] del: of_char_eq_iff)
    then show ?thesis by (simp add: escape_char_def unescape_def)
  next
    case 4
    then have "c = CHR 0x0C" by (simp add: char_eq_code [of c] del: of_char_eq_iff)
    then show ?thesis by (simp add: escape_char_def unescape_def)
  next
    case 5
    then have "c = CHR 0x0A" by (simp add: char_eq_code [of c] del: of_char_eq_iff)
    then show ?thesis by (simp add: escape_char_def unescape_def)
  next
    case 6
    then have "c = CHR 0x0D" by (simp add: char_eq_code [of c] del: of_char_eq_iff)
    then show ?thesis by (simp add: escape_char_def unescape_def)
  next
    case 7
    then have "c = CHR 0x09" by (simp add: char_eq_code [of c] del: of_char_eq_iff)
    then show ?thesis by (simp add: escape_char_def unescape_def)
  qed
qed

lemma parse_chars_quote:
  "parse_chars (concat (map escape_char s) @ CHR 0x22 # r) = Some (s, r)"
  by (induction s)
    (simp_all add: parse_chars_escape parse_chars_close cons_result_Some del: parse_chars.simps(2))

lemma digit_char: "d < 10 \<Longrightarrow> is_digit (char_of (48 + d))"
  "d < 10 \<Longrightarrow> (of_char (char_of (48 + d)) :: nat) - 48 = d"
  by (simp_all add: is_digit_def)

lemma digits_ne: "digits n \<noteq> []"
  by (subst digits.simps) simp

lemma digits_all: "c \<in> set (digits n) \<Longrightarrow> is_digit c"
proof (induction n rule: digits.induct)
  case (1 n)
  show ?case
  proof (cases "n < 10")
    case True
    then show ?thesis using "1.prems" by (subst (asm) digits.simps) (simp add: digit_char)
  next
    case False
    have "n mod 10 < 10" by simp
    then have "is_digit (char_of (48 + n mod 10))" by (rule digit_char)
    then show ?thesis
      using False "1.prems" "1.IH" by (subst (asm) digits.simps) auto
  qed
qed

lemma digits_val_snoc: "digits_val (ds @ [c]) = 10 * digits_val ds + (of_char c - 48)"
  by (simp add: digits_val_def)

lemma digits_val_digits: "digits_val (digits n) = n"
proof (induction n rule: digits.induct)
  case (1 n)
  show ?case
  proof (cases "n < 10")
    case True
    then show ?thesis by (subst digits.simps) (simp add: digits_val_def)
  next
    case False
    have "digits n = digits (n div 10) @ [char_of (48 + n mod 10)]"
      using False by (subst digits.simps) simp
    then show ?thesis
      using False "1.IH" by (simp add: digits_val_snoc)
  qed
qed

lemma hd_digits: "0 < n \<Longrightarrow> hd (digits n) \<noteq> CHR ''0''"
proof (induction n rule: digits.induct)
  case (1 n)
  show ?case
  proof (cases "n < 10")
    case True
    then have "digits n = [char_of (48 + n)]" by (subst digits.simps) simp
    then show ?thesis
      using True "1.prems" by (simp add: char_eq_code [of "char_of (48 + n)"] del: of_char_eq_iff)
  next
    case False
    have "digits n = digits (n div 10) @ [char_of (48 + n mod 10)]"
      using False by (subst digits.simps) simp
    then show ?thesis
      using False "1.IH" by (simp add: digits_ne)
  qed
qed

lemma length_digits: "1 < length (digits n) \<Longrightarrow> 0 < n"
  by (subst (asm) digits.simps) (simp split: if_splits)

lemma no_leading_zero: "Suc 0 < length (digits n) \<Longrightarrow> hd (digits n) \<noteq> CHR ''0''"
  using hd_digits [of n] length_digits [of n] by simp

lemma hd_digits_digit: "is_digit (hd (digits n))"
  using digits_all [of "hd (digits n)" n] digits_ne [of n] by simp

lemma takeWhile_digits:
  "\<not> is_digit c \<Longrightarrow> takeWhile is_digit (digits n @ c # r) = digits n"
  by (simp add: takeWhile_append2 digits_all)

lemma dropWhile_digits:
  "\<not> is_digit c \<Longrightarrow> dropWhile is_digit (digits n @ c # r) = c # r"
  by (simp add: dropWhile_append2 digits_all)

lemma parse_number_digits:
  assumes "\<not> is_digit c" and "c \<notin> {CHR ''.'', CHR ''e'', CHR ''E''}"
  shows "parse_number (digits n @ c # r) = Some (int n, c # r)"
proof -
  have "hd (digits n @ c # r) \<noteq> CHR ''-''"
    using hd_digits_digit [of n] digits_ne [of n] by (auto simp: is_digit_def)
  then show ?thesis
    using assms
    by (simp add: parse_number_def Let_def takeWhile_digits dropWhile_digits digits_ne
        no_leading_zero digits_val_digits)
qed

lemma parse_number_show_int:
  assumes "\<not> is_digit c" and "c \<notin> {CHR ''.'', CHR ''e'', CHR ''E''}"
  shows "parse_number (show_int n @ c # r) = Some (n, c # r)"
proof (cases "n < 0")
  case True
  then show ?thesis
    using assms
    by (simp add: show_int_def parse_number_def Let_def takeWhile_digits dropWhile_digits
        digits_ne no_leading_zero digits_val_digits)
next
  case False
  then show ?thesis
    using parse_number_digits [OF assms, of "nat n" r] by (simp add: show_int_def)
qed

lemma skip_ws_Cons: "\<not> json_ws c \<Longrightarrow> skip_ws (c # r) = c # r"
  by (simp add: skip_ws_def)

lemma json_ws_punct:
  "\<not> json_ws (CHR 0x22)" "\<not> json_ws (CHR '':'')" "\<not> json_ws (CHR '','')"
  "\<not> json_ws (CHR ''{'')" "\<not> json_ws (CHR ''}'')" "\<not> json_ws (CHR ''['')" "\<not> json_ws (CHR '']'')"
  by (simp_all add: json_ws_def)

lemma show_int_first:
  "\<exists>d ds. show_int n = d # ds \<and> (d = CHR ''-'' \<or> is_digit d)"
proof (cases "n < 0")
  case True
  then show ?thesis by (simp add: show_int_def)
next
  case False
  obtain d ds where "digits (nat n) = d # ds"
    using digits_ne [of "nat n"] by (cases "digits (nat n)") auto
  then show ?thesis
    using False hd_digits_digit [of "nat n"] by (simp add: show_int_def)
qed

lemma parse_value_number:
  assumes "c = CHR '','' \<or> c = CHR ''}''"
  shows "parse_value (show_int n @ c # r) = Some (Num n, c # r)"
proof -
  obtain d ds where d: "show_int n = d # ds" "d = CHR ''-'' \<or> is_digit d"
    using show_int_first by blast
  have c: "\<not> is_digit c" "c \<notin> {CHR ''.'', CHR ''e'', CHR ''E''}"
    using assms by (auto simp: is_digit_def)
  have ne: "d \<noteq> CHR 0x22" "d \<noteq> CHR ''n''" "d \<noteq> CHR ''t''" "d \<noteq> CHR ''f''"
    using d(2) by (auto simp: is_digit_def)
  have "parse_value (d # ds @ c # r) =
      map_option (\<lambda>p. (Num (fst p), snd p)) (parse_number (d # ds @ c # r))"
    using ne by (simp add: parse_value_def)
  then show ?thesis
    using parse_number_show_int [OF c, of n r] d(1) by simp
qed

lemma parse_value_stringify:
  assumes "v \<noteq> Undefined" and "c = CHR '','' \<or> c = CHR ''}''"
  shows "parse_value (stringify_value v @ c # r) = Some (v, c # r)"
proof (cases v)
  case Undefined
  then show ?thesis using assms by simp
next
  case Null
  then show ?thesis by (simp add: parse_value_def)
next
  case (Bool b)
  then show ?thesis by (simp add: parse_value_def)
next
  case (Num n)
  then show ?thesis using parse_value_number [OF assms(2)] by simp
next
  case (Str s)
  then show ?thesis by (simp add: parse_value_def quote_def parse_chars_quote)
qed

lemma skip_ws_value:
  assumes "v \<noteq> Undefined"
  shows "skip_ws (stringify_value v @ r) = stringify_value v @ r"
proof (cases v)
  case (Num n)
  obtain d ds where d: "show_int n = d # ds" "d = CHR ''-'' \<or> is_digit d"
    using show_int_first by blast
  then have "\<not> json_ws d" by (auto simp: json_ws_def is_digit_def)
  then show ?thesis using Num d(1) by (simp add: skip_ws_Cons)
qed (use assms in \<open>simp_all add: skip_ws_def json_ws_def quote_def\<close>)

lemma parse_member_stringify:
  assumes "snd m \<noteq> Undefined" and "c = CHR '','' \<or> c = CHR ''}''"
  shows "parse_member (stringify_member m @ c # r) = Some (m, c # r)"
proof -
  have "parse_member (stringify_member m @ c # r) =
      (case parse_value (skip_ws (stringify_value (snd m) @ c # r)) of
         None \<Rightarrow> None
       | Some (v, r3) \<Rightarrow> Some ((fst m, v), r3))"
    by (simp add: parse_member_def stringify_member_def quote_def parse_chars_quote
        skip_ws_Cons json_ws_punct)
  then show ?thesis
    using assms by (simp add: skip_ws_value parse_value_stringify)
qed

lemma join_Cons: "join (x # xs) = (if xs = [] then x else x @ CHR '','' # join xs)"
  by (cases xs) simp_all

lemma skip_ws_first: "t \<noteq> [] \<Longrightarrow> \<not> json_ws (hd t) \<Longrightarrow> skip_ws (t @ r) = t @ r"
  by (cases t) (simp_all add: skip_ws_Cons)

lemma members_first:
  "ms \<noteq> [] \<Longrightarrow> join (map stringify_member ms) \<noteq> [] \<and> hd (join (map stringify_member ms)) = CHR 0x22"
  by (cases ms) (simp_all add: join_Cons stringify_member_def quote_def)

lemma skip_ws_members:
  "ms \<noteq> [] \<Longrightarrow> skip_ws (join (map stringify_member ms) @ r) = join (map stringify_member ms) @ r"
  using members_first [of ms] by (simp add: skip_ws_first json_ws_punct)

lemma parse_members_join:
  assumes "ms \<noteq> []" and "\<forall>m\<in>set ms. snd m \<noteq> Undefined" and "length ms \<le> fuel"
  shows "parse_members fuel acc (join (map stringify_member ms) @ CHR ''}'' # r)
           = Some (fold (\<lambda>m a. js_set a (fst m) (snd m)) ms acc, r)"
  using assms
proof (induction ms arbitrary: fuel acc)
  case Nil
  then show ?case by simp
next
  case (Cons m ms)
  obtain n where fuel: "fuel = Suc n" "length ms \<le> n"
    using Cons.prems(3) by (cases fuel) auto
  have v: "snd m \<noteq> Undefined" using Cons.prems(2) by simp
  show ?case
  proof (cases "ms = []")
    case True
    have "parse_member (stringify_member m @ CHR ''}'' # r) = Some (m, CHR ''}'' # r)"
      using v by (simp add: parse_member_stringify)
    then show ?thesis
      using True fuel by (simp add: skip_ws_Cons json_ws_punct case_prod_beta)
  next
    case False
    let ?rest = "join (map stringify_member ms) @ CHR ''}'' # r"
    have j: "join (map stringify_member (m # ms)) @ CHR ''}'' # r
        = stringify_member m @ CHR '','' # ?rest"
      using False by (simp add: join_Cons)
    have "parse_member (stringify_member m @ CHR '','' # ?rest) = Some (m, CHR '','' # ?rest)"
      using v by (simp add: parse_member_stringify)
    moreover have "skip_ws ?rest = ?rest"
      using False by (rule skip_ws_members)
    moreover have "parse_members n (js_set acc (fst m) (snd m)) ?rest
        = Some (fold (\<lambda>m a. js_set a (fst m) (snd m)) ms (js_set acc (fst m) (snd m)), r)"
      using Cons.IH [OF False, of n] Cons.prems(2) fuel(2) by simp
    ultimately show ?thesis
      unfolding j fuel(1)
      by (simp add: skip_ws_Cons json_ws_punct case_prod_beta)
  qed
qed

lemma update_fresh: "k \<notin> fst ` set al \<Longrightarrow> AList.update k v al = al @ [(k, v)]"
  by (induction al) auto

lemma fold_js_set_distinct:
  "distinct (map fst (acc @ ms)) \<Longrightarrow> fold (\<lambda>m a. js_set a (fst m) (snd m)) ms acc = acc @ ms"
proof (induction ms arbitrary: acc)
  case Nil
  then show ?case by simp
next
  case (Cons m ms)
  have "js_set acc (fst m) (snd m) = acc @ [m]"
    using Cons.prems by (simp add: js_set_def update_fresh)
  then show ?case
    using Cons.IH [of "acc @ [m]"] Cons.prems by simp
qed

lemma length_join: "\<forall>x\<in>set xs. x \<noteq> [] \<Longrightarrow> length xs \<le> length (join xs)"
  by (induction xs rule: join.induct) (auto simp: Suc_le_eq)

lemma parse_object_open:
  "skip_ws t = t \<Longrightarrow> t \<noteq> [] \<Longrightarrow> hd t \<noteq> CHR ''}'' \<Longrightarrow>
   parse_object (CHR ''{'' # t) = parse_members (length t) [] t"
  by (cases t) (simp_all add: parse_object_def)

lemma parse_object_stringify:
  assumes "storable obj"
  shows "parse_object (stringify_object obj @ r) = Some (obj, r)"
proof (cases "obj = []")
  case True
  then show ?thesis
    by (simp add: stringify_object_def parse_object_def skip_ws_Cons json_ws_punct)
next
  case False
  have clean: "\<forall>m\<in>set obj. snd m \<noteq> Undefined"
    using assms by (force simp: storable_def)
  then have f: "filter (\<lambda>m. snd m \<noteq> Undefined) obj = obj" by simp
  let ?t = "join (map stringify_member obj) @ CHR ''}'' # r"
  have first: "join (map stringify_member obj) \<noteq> []" "hd (join (map stringify_member obj)) = CHR 0x22"
    using members_first [OF False] by simp_all
  have "length obj \<le> length (join (map stringify_member obj))"
    by (rule le_trans [OF _ length_join]) (auto simp: stringify_member_def quote_def)
  then have len: "length obj \<le> length ?t" by simp
  have "parse_object (CHR ''{'' # ?t) = parse_members (length ?t) [] ?t"
    using first skip_ws_members [OF False, of "CHR ''}'' # r"]
    by (intro parse_object_open) simp_all
  also have "\<dots> = Some (fold (\<lambda>m a. js_set a (fst m) (snd m)) obj [], r)"
    using False clean len by (rule parse_members_join)
  also have "fold (\<lambda>m a. js_set a (fst m) (snd m)) obj [] = obj"
    using assms fold_js_set_distinct [of "[]" obj] by (simp add: storable_def keys_def)
  finally show ?thesis
    by (simp add: stringify_object_def f)
qed

lemma objects_first:
  "todos \<noteq> [] \<Longrightarrow> join (map stringify_object todos) \<noteq> []
     \<and> hd (join (map stringify_object todos)) = CHR ''{''"
  by (cases todos) (simp_all add: join_Cons stringify_object_def)

lemma parse_elements_join:
  assumes "todos \<noteq> []" and "\<forall>t\<in>set todos. storable t" and "length todos \<le> fuel"
  shows "parse_elements fuel (join (map stringify_object todos) @ CHR '']'' # r) = Some (todos, r)"
  using assms
proof (induction todos arbitrary: fuel)
  case Nil
  then show ?case by simp
next
  case (Cons t ts)
  obtain n where fuel: "fuel = Suc n" "length ts \<le> n"
    using Cons.prems(3) by (cases fuel) auto
  have st: "storable t" using Cons.prems(2) by simp
  show ?case
  proof (cases "ts = []")
    case True
    then show ?thesis
      using fuel parse_object_stringify [OF st, of "CHR '']'' # r"]
      by (simp add: skip_ws_Cons json_ws_punct)
  next
    case False
    let ?rest = "join (map stringify_object ts) @ CHR '']'' # r"
    have j: "join (map stringify_object (t # ts)) @ CHR '']'' # r
        = stringify_object t @ CHR '','' # ?rest"
      using False by (simp add: join_Cons)
    have "skip_ws ?rest = ?rest"
      using objects_first [OF False] by (simp add: skip_ws_first json_ws_punct)
    moreover have "parse_elements n ?rest = Some (ts, r)"
      using Cons.IH [OF False, of n] Cons.prems(2) fuel(2) by simp
    ultimately show ?thesis
      unfolding j fuel(1)
      using parse_object_stringify [OF st, of "CHR '','' # ?rest"]
      by (simp add: skip_ws_Cons json_ws_punct cons_result_Some)
  qed
qed

lemma JSON_parse_stringify:
  assumes "\<forall>t\<in>set todos. storable t"
  shows "JSON_parse (JSON_stringify todos) = Some todos"
proof (cases "todos = []")
  case True
  then show ?thesis
    by (simp add: JSON_parse_def JSON_stringify_def skip_ws_Cons json_ws_punct skip_ws_def)
next
  case False
  let ?t = "join (map stringify_object todos) @ [CHR '']'']"
  obtain d r' where t: "?t = d # r'" "d = CHR ''{''"
    using objects_first [OF False] by (cases "join (map stringify_object todos)") auto
  have "length todos \<le> length (join (map stringify_object todos))"
    by (rule le_trans [OF _ length_join]) (auto simp: stringify_object_def)
  then have len: "length todos \<le> length ?t" by simp
  have "parse_elements (length ?t) ?t = Some (todos, [])"
    using parse_elements_join [OF False assms len, of "[]"] by simp
  then have "parse_elements (Suc (length r')) (d # r') = Some (todos, [])"
    using t(1) by simp
  then show ?thesis
    using t
    by (simp add: JSON_parse_def JSON_stringify_def skip_ws_Cons json_ws_punct skip_ws_def
        del: parse_elements.simps)
qed

lemma present_defined:
  assumes "distinct (map fst t)" and "set (map fst t) = {a, b, c}"
    and "js_get t a \<noteq> Undefined" and "js_get t b \<noteq> Undefined" and "js_get t c \<noteq> Undefined"
    and "(k, v) \<in> set t"
  shows "v \<noteq> Undefined"
proof -
  have m: "map_of t k = Some v" using assms(1,6) by simp
  have "k \<in> set (map fst t)" using assms(6) by force
  then have "k = a \<or> k = b \<or> k = c"
    unfolding assms(2) by blast
  then show ?thesis
    using m assms(3,4,5) by (auto simp: js_get_def)
qed

lemma task_record_storable: "task_record t \<Longrightarrow> storable t"
proof -
  assume t: "task_record t"
  have d: "distinct (map fst t)"
    and ks: "set (map fst t) = {''title'', ''id'', ''completed''}"
    using t unfolding task_record_def keys_def by blast+
  have "js_get t ''title'' \<noteq> Undefined"
    using t unfolding task_record_def by (cases "js_get t ''title''") simp_all
  moreover have "js_get t ''id'' \<noteq> Undefined"
    using t unfolding task_record_def by (cases "js_get t ''id''") simp_all
  moreover have "js_get t ''completed'' \<noteq> Undefined"
    using t unfolding task_record_def by (cases "js_get t ''completed''") simp_all
  ultimately have "\<And>k v. (k, v) \<in> set t \<Longrightarrow> v \<noteq> Undefined"
    using present_defined [OF d ks] by blast
  then have "Undefined \<notin> snd ` set t" by force
  then show ?thesis
    using d unfolding storable_def keys_def by blast
qed

lemma JSON_stringify_ne: "JSON_stringify todos \<noteq> []"
  by (simp add: JSON_stringify_def)

subsection \<open>The length of the text is fuel enough\<close>

lemma length_skip_ws: "length (skip_ws s) \<le> length s"
  by (simp add: skip_ws_def length_dropWhile_le)

lemma cons_result_SomeD:
  "cons_result x p = Some (ys, r) \<Longrightarrow> \<exists>xs. p = Some (xs, r)"
  by (cases p) (auto simp: cons_result_def)

lemma parse_chars_shorter: "parse_chars s = Some (x, r) \<Longrightarrow> length r < length s"
proof (induction s arbitrary: x r rule: length_induct)
  case (1 s)
  show ?case
  proof (cases s)
    case Nil
    then show ?thesis using "1.prems" by simp
  next
    case (Cons c cs)
    consider "c = CHR 0x22" | "c = CHR 0x5C" | "c \<noteq> CHR 0x22" "c \<noteq> CHR 0x5C" by blast
    then show ?thesis
    proof cases
      case 1
      then show ?thesis using Cons "1.prems" by simp
    next
      case 3
      then obtain xs where "parse_chars cs = Some (xs, r)"
        using Cons "1.prems" by (auto split: if_splits dest: cons_result_SomeD)
      then have "length r < length cs" using "1.IH" Cons by simp
      then show ?thesis using Cons by simp
    next
      case 2
      then obtain t xs where t: "parse_chars t = Some (xs, r)" "length t < length s"
        using Cons "1.prems"
        by (auto split: if_splits list.splits option.splits dest!: cons_result_SomeD)
      then have "length r < length t" using "1.IH" by simp
      then show ?thesis using t(2) by simp
    qed
  qed
qed

lemma strip_prefix_length: "strip_prefix p s = Some r \<Longrightarrow> length s = length p + length r"
  by (induction p s rule: strip_prefix.induct) (auto split: if_splits)

lemma parse_number_shorter: "parse_number s = Some (n, r) \<Longrightarrow> length r < length s"
proof -
  assume a: "parse_number s = Some (n, r)"
  define s1 where "s1 = (if s \<noteq> [] \<and> hd s = CHR ''-'' then tl s else s)"
  have r: "r = dropWhile is_digit s1" and ne: "takeWhile is_digit s1 \<noteq> []"
    using a by (auto simp: parse_number_def Let_def s1_def split: if_splits)
  have "length (takeWhile is_digit s1) + length r = length s1"
    unfolding r by (metis length_append takeWhile_dropWhile_id)
  moreover have "0 < length (takeWhile is_digit s1)" using ne by simp
  moreover have "length s1 \<le> length s" by (simp add: s1_def)
  ultimately show ?thesis by linarith
qed

lemma parse_value_shorter: "parse_value s = Some (v, r) \<Longrightarrow> length r < length s"
proof (cases s)
  case Nil
  assume "parse_value s = Some (v, r)"
  then show ?thesis using Nil by (simp add: parse_value_def)
next
  case (Cons c cs)
  assume a: "parse_value s = Some (v, r)"
  show ?thesis
  proof (cases "c = CHR 0x22")
    case True
    then obtain x where "parse_chars cs = Some (x, r)"
      using a Cons by (auto simp: parse_value_def)
    then show ?thesis using parse_chars_shorter Cons by fastforce
  next
    case False
    then consider "strip_prefix ''null'' s = Some r" | "strip_prefix ''true'' s = Some r"
      | "strip_prefix ''false'' s = Some r" | n where "parse_number s = Some (n, r)"
      using a Cons by (auto simp: parse_value_def split: option.splits)
    then show ?thesis
    proof cases
      case 4
      then show ?thesis by (rule parse_number_shorter)
    qed (auto dest: strip_prefix_length)
  qed
qed

lemma parse_member_shorter: "parse_member s = Some (m, r) \<Longrightarrow> length r < length s"
proof -
  assume a: "parse_member s = Some (m, r)"
  then obtain cs k r1 r2 v where s: "s = CHR 0x22 # cs" and k: "parse_chars cs = Some (k, r1)"
    and c: "skip_ws r1 = CHR '':'' # r2" and v: "parse_value (skip_ws r2) = Some (v, r)"
    by (auto simp: parse_member_def split: list.splits if_splits option.splits)
  have "length r < length (skip_ws r2)" using v by (rule parse_value_shorter)
  also have "\<dots> \<le> length r2" by (rule length_skip_ws)
  also have "\<dots> < length (skip_ws r1)" using c by simp
  also have "\<dots> \<le> length r1" by (rule length_skip_ws)
  also have "\<dots> < length cs" using k by (rule parse_chars_shorter)
  finally show ?thesis using s by simp
qed

lemma parse_members_fuel:
  "length s \<le> n \<Longrightarrow> length s \<le> m \<Longrightarrow> parse_members (Suc n) acc s = parse_members (Suc m) acc s"
proof (induction n arbitrary: m s acc)
  case 0
  then show ?case by (simp add: parse_member_def)
next
  case (Suc n)
  show ?case
  proof (cases "parse_member s")
    case None
    then show ?thesis by simp
  next
    case (Some p)
    obtain k v r where p: "p = ((k, v), r)" by (metis prod.exhaust)
    have lr: "length r < length s" using Some p parse_member_shorter by simp
    show ?thesis
    proof (cases "skip_ws r")
      case Nil
      then show ?thesis using Some p by simp
    next
      case (Cons c r')
      have "length r' < length r" using Cons length_skip_ws [of r] by simp
      then have l: "length (skip_ws r') < length s - 1"
        using lr length_skip_ws [of r'] by linarith
      then obtain m' where m: "m = Suc m'" using Suc.prems(2) by (cases m) auto
      have "parse_members (Suc n) (js_set acc k v) (skip_ws r')
          = parse_members (Suc m') (js_set acc k v) (skip_ws r')"
        using l Suc.prems m by (intro Suc.IH) linarith+
      then show ?thesis using Some p Cons m by simp
    qed
  qed
qed

lemma parse_members_shorter:
  "parse_members n acc s = Some (obj, r) \<Longrightarrow> length r < length s"
proof (induction n arbitrary: acc s)
  case 0
  then show ?case by simp
next
  case (Suc n)
  from Suc.prems obtain k v r1 c r' where m: "parse_member s = Some ((k, v), r1)"
    and c: "skip_ws r1 = c # r'"
    and step: "(c = CHR '','' \<and> parse_members n (js_set acc k v) (skip_ws r') = Some (obj, r))
       \<or> (c = CHR ''}'' \<and> r = r')"
    by (auto split: option.splits list.splits if_splits)
  have 1: "length r1 < length s" using m by (rule parse_member_shorter)
  have 2: "length r' < length r1" using c length_skip_ws [of r1] by simp
  from step show ?case
  proof
    assume "c = CHR '','' \<and> parse_members n (js_set acc k v) (skip_ws r') = Some (obj, r)"
    then have "length r < length (skip_ws r')" using Suc.IH by blast
    then show ?thesis using 1 2 length_skip_ws [of r'] by linarith
  next
    assume "c = CHR ''}'' \<and> r = r'"
    then show ?thesis using 1 2 by simp
  qed
qed

lemma parse_object_shorter: "parse_object s = Some (obj, r) \<Longrightarrow> length r < length s"
proof -
  assume a: "parse_object s = Some (obj, r)"
  then obtain cs d r' where s: "s = CHR ''{'' # cs" and d: "skip_ws cs = d # r'"
    and step: "(d = CHR ''}'' \<and> r = r') \<or> parse_members (Suc (length r')) [] (d # r') = Some (obj, r)"
    by (auto simp: parse_object_def split: list.splits if_splits)
  have l: "length (d # r') \<le> length cs" using d length_skip_ws [of cs] by simp
  from step show ?thesis
  proof
    assume "d = CHR ''}'' \<and> r = r'"
    then show ?thesis using l s by simp
  next
    assume "parse_members (Suc (length r')) [] (d # r') = Some (obj, r)"
    then have "length r < length (d # r')" by (rule parse_members_shorter)
    then show ?thesis using l s by simp
  qed
qed

lemma parse_elements_fuel:
  "length s \<le> n \<Longrightarrow> length s \<le> m \<Longrightarrow> parse_elements (Suc n) s = parse_elements (Suc m) s"
proof (induction n arbitrary: m s)
  case 0
  then show ?case by (simp add: parse_object_def)
next
  case (Suc n)
  show ?case
  proof (cases "parse_object s")
    case None
    then show ?thesis by simp
  next
    case (Some p)
    obtain obj r where p: "p = (obj, r)" by (metis prod.exhaust)
    have lr: "length r < length s" using Some p parse_object_shorter by simp
    show ?thesis
    proof (cases "skip_ws r")
      case Nil
      then show ?thesis using Some p by simp
    next
      case (Cons c r')
      have "length r' < length r" using Cons length_skip_ws [of r] by simp
      then have l: "length (skip_ws r') < length s - 1"
        using lr length_skip_ws [of r'] by linarith
      then obtain m' where m: "m = Suc m'" using Suc.prems(2) by (cases m) auto
      have "parse_elements (Suc n) (skip_ws r') = parse_elements (Suc m') (skip_ws r')"
        using l Suc.prems m by (intro Suc.IH) linarith+
      then show ?thesis using Some p Cons m by simp
    qed
  qed
qed

subsection \<open>The claims\<close>

text \<open>
  C1 (as amended). \<^verbatim>\<open>addTodo\<close> takes the id from the clock and compares it with nothing.
  For a title that is not empty once trimmed, and a clock value that is not the id of a
  stored record, \<^verbatim>\<open>addTodo\<close> returns a record with \<^verbatim>\<open>completed = false\<close>, the given title
  and the clock value as id, which no stored record has, and the collection afterwards is
  the collection before with that record appended.
\<close>

theorem addTodo_appends:
  assumes "getLocalStorage s = Inr todos"
    and "trim t \<noteq> []"
    and "\<forall>r\<in>set todos. js_get r ''id'' \<noteq> Num now"
  shows "\<exists>item s'. addTodo (Str t) now s = (Inr item, s')
           \<and> js_get item ''completed'' = Bool False
           \<and> js_get item ''title'' = Str t
           \<and> js_get item ''id'' = Num now
           \<and> (\<forall>r\<in>set todos. js_get r ''id'' \<noteq> js_get item ''id'')
           \<and> getLocalStorage s' = Inr (todos @ [item])"
  using assms by (simp add: addTodo_def Let_def getLocalStorage_setLocalStorage js_get_def)

theorem addTodo_appends_witness:
  "\<exists>item s'. addTodo (Str ''B'') 2 store1 = (Inr item, s')
     \<and> js_get item ''completed'' = Bool False
     \<and> js_get item ''title'' = Str ''B''
     \<and> js_get item ''id'' = Num 2
     \<and> (\<forall>r\<in>set [taskA]. js_get r ''id'' \<noteq> js_get item ''id'')
     \<and> getLocalStorage s' = Inr ([taskA] @ [item])"
  using addTodo_appends [of store1 "[taskA]" "''B''" 2]
  by (simp add: getLocalStorage_setLocalStorage trim_A js_get_def)

text \<open>
  C1 as stated fails when the clock returns the id of a stored record. On a new element
  over an empty \<^verbatim>\<open>localStorage\<close>, \<^verbatim>\<open>addTodo("A")\<close> and \<^verbatim>\<open>addTodo("B")\<close> are both called while
  \<^verbatim>\<open>Date.now()\<close> is 1: the second call succeeds, and the record it returns and appends
  has the id of the record A that is already stored.
\<close>

theorem addTodo_id_collision:
  "getLocalStorage (snd (addTodo (Str ''A'') 1 (initialize None None Map.empty))) = Inr [taskA]
   \<and> fst (addTodo (Str ''B'') 1 (snd (addTodo (Str ''A'') 1 (initialize None None Map.empty))))
     = Inr [(''title'', Str ''B''), (''id'', Num 1), (''completed'', Bool False)]
   \<and> getLocalStorage
        (snd (addTodo (Str ''B'') 1 (snd (addTodo (Str ''A'') 1 (initialize None None Map.empty)))))
     = Inr [taskA, [(''title'', Str ''B''), (''id'', Num 1), (''completed'', Bool False)]]
   \<and> js_get [(''title'', Str ''B''), (''id'', Num 1), (''completed'', Bool False)] ''id''
     = js_get taskA ''id''"
proof -
  have "snd (addTodo (Str ''A'') 1 (initialize None None Map.empty)) = store1"
    by (simp add: addTodo_def Let_def getLocalStorage_initialize trim_A)
  then show ?thesis
    by (simp add: addTodo_def Let_def getLocalStorage_setLocalStorage trim_A js_get_def)
qed

text \<open>
  C2. \<^verbatim>\<open>updateTodo\<close> copies the title of the update onto the record without the check
  that \<^verbatim>\<open>addTodo\<close> makes: on a collection whose titles are all valid, the update
  \<^verbatim>\<open>{id: 1, title: ""}\<close> (what the item view sends when the edited title is empty)
  succeeds and leaves a record with an empty title in the collection.
\<close>

theorem updateTodo_stores_empty_title:
  "titles_valid [taskA]
   \<and> getLocalStorage store1 = Inr [taskA]
   \<and> fst (updateTodo [(''id'', Num 1), (''title'', Str [])] store1)
     = Inr [(''title'', Str []), (''id'', Num 1), (''completed'', Bool False)]
   \<and> getLocalStorage (snd (updateTodo [(''id'', Num 1), (''title'', Str [])] store1))
     = Inr [[(''title'', Str []), (''id'', Num 1), (''completed'', Bool False)]]
   \<and> \<not> titles_valid [[(''title'', Str []), (''id'', Num 1), (''completed'', Bool False)]]"
proof -
  let ?upd = "[(''id'', Num 1), (''title'', Str [])]"
  have "updateTodo_loop 0 [taskA] ?upd = ([taskA][0 := assign taskA ?upd], Some (assign taskA ?upd))"
    using updateTodo_loop_hit [of 0 "[taskA]" ?upd] by (simp add: js_get_def)
  moreover have "assign taskA ?upd
      = [(''title'', Str []), (''id'', Num 1), (''completed'', Bool False)]"
    by (simp add: assign_def keys_def js_set_def js_get_def)
  ultimately show ?thesis
    by (simp add: updateTodo_def getLocalStorage_setLocalStorage titles_valid_def
        valid_title_def js_get_def trim_def is_space_def)
qed

text \<open>
  C3. When no record of the collection has the id of the update, \<^verbatim>\<open>updateTodo\<close> returns
  a promise rejected with the update, and the state of the element (the cached array and
  the stored text) is the state before the call.
\<close>

theorem updateTodo_not_found:
  assumes "getLocalStorage s = Inr todos"
    and "\<forall>t\<in>set todos. js_get t ''id'' \<noteq> js_get update ''id''"
  shows "updateTodo update s = (Inl (NotFoundError update), s)"
proof -
  have "updateTodo_loop 0 todos update = (todos, None)"
    using assms(2) by (intro updateTodo_loop_none) simp
  then show ?thesis using assms(1) by (simp add: updateTodo_def)
qed

theorem updateTodo_not_found_witness:
  "getLocalStorage store1 = Inr [taskA]
   \<and> js_get taskA ''id'' \<noteq> js_get [(''id'', Num 7), (''completed'', Bool True)] ''id''
   \<and> updateTodo [(''id'', Num 7), (''completed'', Bool True)] store1
     = (Inl (NotFoundError [(''id'', Num 7), (''completed'', Bool True)]), store1)"
  using updateTodo_not_found [of store1 "[taskA]" "[(''id'', Num 7), (''completed'', Bool True)]"]
  by (simp add: getLocalStorage_setLocalStorage js_get_def)

text \<open>
  C4. For a title that is empty once trimmed, \<^verbatim>\<open>addTodo\<close> throws its error and the state
  of the element is the state before the call; so it is for \<^verbatim>\<open>""\<close> and for \<^verbatim>\<open>"   "\<close>.
\<close>

theorem addTodo_blank_title:
  assumes "getLocalStorage s = Inr todos" and "trim t = []"
  shows "addTodo (Str t) now s = (Inl ValidationError, s)"
  using assms by (simp add: addTodo_def)

theorem addTodo_blank_title_witness:
  "addTodo (Str []) 5 store1 = (Inl ValidationError, store1)
   \<and> addTodo (Str ''   '') 5 store1 = (Inl ValidationError, store1)"
  using addTodo_blank_title [of store1 "[taskA]" "[]" 5]
    addTodo_blank_title [of store1 "[taskA]" "''   ''" 5]
  by (simp add: getLocalStorage_setLocalStorage trim_def is_space_def)

text \<open>
  C5. For the id \<open>i\<close> of a record of the collection, \<^verbatim>\<open>updateTodo({id: i, completed: true})\<close>
  succeeds on the first record \<open>j\<close> with that id (the only one when ids are unique): the
  record returned has \<^verbatim>\<open>completed = true\<close> and every other property, so the title and
  the id, as before, and the collection afterwards is the collection before with that
  record at position \<open>j\<close>, every other position unchanged.
\<close>

theorem updateTodo_completed:
  assumes "getLocalStorage s = Inr todos"
    and "\<exists>t\<in>set todos. js_get t ''id'' = i"
  shows "\<exists>j item s'. j < length todos \<and> js_get (todos ! j) ''id'' = i
           \<and> (\<forall>m<j. js_get (todos ! m) ''id'' \<noteq> i)
           \<and> updateTodo [(''id'', i), (''completed'', Bool True)] s = (Inr item, s')
           \<and> js_get item ''completed'' = Bool True
           \<and> (\<forall>k. k \<noteq> ''completed'' \<longrightarrow> js_get item k = js_get (todos ! j) k)
           \<and> getLocalStorage s' = Inr (todos[j := item])"
proof -
  let ?upd = "[(''id'', i), (''completed'', Bool True)]"
  let ?P = "\<lambda>n. n < length todos \<and> js_get (todos ! n) ''id'' = i"
  from assms(2) have "\<exists>n. ?P n" by (auto simp: in_set_conv_nth)
  then obtain n where n: "?P n" ..
  define j where "j = (LEAST n. ?P n)"
  have Pj: "?P j" unfolding j_def using n by (rule LeastI)
  have first: "\<And>m. m < j \<Longrightarrow> js_get (todos ! m) ''id'' \<noteq> i"
  proof
    fix m assume m: "m < j" and eq: "js_get (todos ! m) ''id'' = i"
    from m Pj have "?P m" using eq by simp
    then have "j \<le> m" unfolding j_def by (rule Least_le)
    with m show False by simp
  qed
  have uid: "js_get ?upd ''id'' = i" by (simp add: js_get_def)
  let ?item = "assign (todos ! j) ?upd"
  have loop: "updateTodo_loop 0 todos ?upd = (todos[j := ?item], Some ?item)"
    using Pj first by (intro updateTodo_loop_found) (simp_all add: uid)
  have res: "updateTodo ?upd s = (Inr ?item, setLocalStorage (todos[j := ?item]) s)"
    using assms(1) loop by (simp add: updateTodo_def)
  have c: "js_get ?item ''completed'' = Bool True"
    by (simp add: js_get_assign keys_def) (simp add: js_get_def)
  have k: "\<forall>k. k \<noteq> ''completed'' \<longrightarrow> js_get ?item k = js_get (todos ! j) k"
    using Pj by (auto simp: js_get_assign keys_def uid)
  show ?thesis
    using Pj first res c k getLocalStorage_setLocalStorage by blast
qed

theorem updateTodo_completed_witness:
  "\<exists>j item s'. j < length [taskB, taskA] \<and> js_get ([taskB, taskA] ! j) ''id'' = Num 1
     \<and> (\<forall>m<j. js_get ([taskB, taskA] ! m) ''id'' \<noteq> Num 1)
     \<and> updateTodo [(''id'', Num 1), (''completed'', Bool True)]
          (setLocalStorage [taskB, taskA] (initialize None None Map.empty)) = (Inr item, s')
     \<and> js_get item ''completed'' = Bool True
     \<and> (\<forall>k. k \<noteq> ''completed'' \<longrightarrow> js_get item k = js_get ([taskB, taskA] ! j) k)
     \<and> getLocalStorage s' = Inr ([taskB, taskA][j := item])"
  using updateTodo_completed [of "setLocalStorage [taskB, taskA] (initialize None None Map.empty)"
      "[taskB, taskA]" "Num 1"]
  by (simp add: getLocalStorage_setLocalStorage js_get_def)

text \<open>
  C6. When no record of the collection has the given id, \<^verbatim>\<open>removeTodo\<close> succeeds, and
  both the array it returns and the collection afterwards are the collection before.
\<close>

theorem removeTodo_absent:
  assumes "getLocalStorage s = Inr todos"
    and "\<forall>t\<in>set todos. js_get t ''id'' \<noteq> i"
  shows "fst (removeTodo i s) = Inr todos \<and> getLocalStorage (snd (removeTodo i s)) = Inr todos"
proof -
  have "filter (\<lambda>todo. js_get todo ''id'' \<noteq> i) todos = todos"
    using assms(2) by (simp add: filter_id_conv)
  then show ?thesis
    using assms(1) by (simp add: removeTodo_def getLocalStorage_setLocalStorage)
qed

theorem removeTodo_absent_witness:
  "getLocalStorage store2 = Inr [taskA, taskB]
   \<and> js_get taskA ''id'' \<noteq> Num 7 \<and> js_get taskB ''id'' \<noteq> Num 7
   \<and> fst (removeTodo (Num 7) store2) = Inr [taskA, taskB]
   \<and> getLocalStorage (snd (removeTodo (Num 7) store2)) = Inr [taskA, taskB]"
  using removeTodo_absent [of store2 "[taskA, taskB]" "Num 7"]
  by (simp add: getLocalStorage_setLocalStorage js_get_def)

text \<open>
  C7. \<^verbatim>\<open>find(query)\<close> returns, in the order of the collection, the records that agree
  with the query on every property the query names (a property that a record does not
  have reads as \<^verbatim>\<open>undefined\<close>); \<^verbatim>\<open>find()\<close> returns the whole collection.
\<close>

theorem find_exact_match:
  assumes "getLocalStorage s = Inr todos"
  shows "find_todos (Some q) s =
           Inr (filter (\<lambda>t. \<forall>k\<in>set (keys q). js_get t k = js_get q k) todos)
         \<and> find_todos None s = Inr todos"
proof -
  have "(\<lambda>t. query_loop (keys q) q t) = (\<lambda>t. \<forall>k\<in>set (keys q). js_get t k = js_get q k)"
    by (auto simp: query_loop_iff fun_eq_iff)
  then show ?thesis
    using assms by (simp add: find_todos_def keys_def)
qed

theorem find_exact_match_witness:
  "find_todos (Some [(''completed'', Bool True)]) store2
     = Inr (filter (\<lambda>t. \<forall>k\<in>set (keys [(''completed'', Bool True)]).
                js_get t k = js_get [(''completed'', Bool True)] k) [taskA, taskB])
   \<and> find_todos (Some [(''completed'', Bool True)]) store2 = Inr [taskB]
   \<and> find_todos None store2 = Inr [taskA, taskB]"
  using find_exact_match [of store2 "[taskA, taskB]" "[(''completed'', Bool True)]"]
  by (simp add: getLocalStorage_setLocalStorage keys_def js_get_def)

text \<open>
  C8. On a collection whose records have a boolean \<^verbatim>\<open>completed\<close>, \<^verbatim>\<open>count\<close> returns the
  number of records as total, the number of records with \<^verbatim>\<open>completed = true\<close> as
  completed, and their difference as active. From the empty collection,
  \<^verbatim>\<open>addTodo("A")\<close> at time \<open>a\<close>, \<^verbatim>\<open>addTodo("B")\<close> at time \<open>b\<close> and
  \<^verbatim>\<open>updateTodo({id: a, completed: true})\<close> lead to the counts 2, 1 and 1 (whether or not
  \<open>a\<close> and \<open>b\<close> differ: the update changes the first record with the id).
\<close>

theorem count_correct:
  "(getLocalStorage s = Inr todos \<and> (\<forall>t\<in>set todos. \<exists>b. js_get t ''completed'' = Bool b) \<longrightarrow>
      count s = Inr \<lparr>total = int (length todos),
        completed = int (length (filter (\<lambda>t. js_get t ''completed'' = Bool True) todos)),
        active = int (length todos) - int (length (filter (\<lambda>t. js_get t ''completed'' = Bool True) todos))\<rparr>)
   \<and> (getLocalStorage s0 = Inr [] \<longrightarrow>
      count (snd (updateTodo [(''id'', Num a), (''completed'', Bool True)]
               (snd (addTodo (Str ''B'') b (snd (addTodo (Str ''A'') a s0))))))
        = Inr \<lparr>total = 2, completed = 1, active = 1\<rparr>)"
proof (intro conjI impI)
  assume h: "getLocalStorage s = Inr todos \<and> (\<forall>t\<in>set todos. \<exists>b. js_get t ''completed'' = Bool b)"
  then have "filter (\<lambda>t. truthy (js_get t ''completed'')) todos
      = filter (\<lambda>t. js_get t ''completed'' = Bool True) todos"
    by (intro filter_cong) auto
  then show "count s = Inr \<lparr>total = int (length todos),
        completed = int (length (filter (\<lambda>t. js_get t ''completed'' = Bool True) todos)),
        active = int (length todos) - int (length (filter (\<lambda>t. js_get t ''completed'' = Bool True) todos))\<rparr>"
    using h count_eq [of s todos] by simp
next
  assume e: "getLocalStorage s0 = Inr []"
  let ?A = "[(''title'', Str ''A''), (''id'', Num a), (''completed'', Bool False)]"
  let ?B = "[(''title'', Str ''B''), (''id'', Num b), (''completed'', Bool False)]"
  let ?A' = "[(''title'', Str ''A''), (''id'', Num a), (''completed'', Bool True)]"
  let ?upd = "[(''id'', Num a), (''completed'', Bool True)]"
  define s1 where "s1 = snd (addTodo (Str ''A'') a s0)"
  define s2 where "s2 = snd (addTodo (Str ''B'') b s1)"
  define s3 where "s3 = snd (updateTodo ?upd s2)"
  have 1: "getLocalStorage s1 = Inr [?A]"
    using e by (simp add: s1_def addTodo_def Let_def trim_A getLocalStorage_setLocalStorage)
  have 2: "getLocalStorage s2 = Inr [?A, ?B]"
    using 1 by (simp add: s2_def addTodo_def Let_def trim_A getLocalStorage_setLocalStorage)
  have "updateTodo_loop 0 [?A, ?B] ?upd = ([?A, ?B][0 := assign ?A ?upd], Some (assign ?A ?upd))"
    using updateTodo_loop_hit [of 0 "[?A, ?B]" ?upd] by (simp add: js_get_def)
  moreover have "assign ?A ?upd = ?A'"
    by (simp add: assign_def keys_def js_set_def js_get_def)
  ultimately have 3: "getLocalStorage s3 = Inr [?A', ?B]"
    using 2 by (simp add: s3_def updateTodo_def getLocalStorage_setLocalStorage)
  show "count (snd (updateTodo ?upd (snd (addTodo (Str ''B'') b (snd (addTodo (Str ''A'') a s0))))))
        = Inr \<lparr>total = 2, completed = 1, active = 1\<rparr>"
    using count_eq [OF 3] by (simp add: s3_def s2_def s1_def js_get_def)
qed

theorem count_correct_witness:
  "count store2 = Inr \<lparr>total = 2, completed = 1, active = 1\<rparr>
   \<and> count (snd (updateTodo [(''id'', Num 10), (''completed'', Bool True)]
              (snd (addTodo (Str ''B'') 11 (snd (addTodo (Str ''A'') 10
                (initialize None None Map.empty)))))))
      = Inr \<lparr>total = 2, completed = 1, active = 1\<rparr>"
proof -
  have e: "getLocalStorage (initialize None None Map.empty) = Inr []"
    by (rule getLocalStorage_initialize)
  have g: "getLocalStorage store2 = Inr [taskA, taskB]"
    by (simp add: getLocalStorage_setLocalStorage)
  have b: "\<forall>t\<in>set [taskA, taskB]. \<exists>b. js_get t ''completed'' = Bool b"
    by (auto simp: js_get_def)
  show ?thesis
    using count_correct [of store2 "[taskA, taskB]" "initialize None None Map.empty" 10 11] e g b
    by (simp add: js_get_def)
qed

text \<open>
  C9. Writing a collection of task records with \<^verbatim>\<open>setLocalStorage\<close> and reading it with
  \<^verbatim>\<open>getLocalStorage\<close> gives the same sequence of records, both on the element that wrote
  it (from its cached array) and on a new element of the same name over the written
  \<^verbatim>\<open>localStorage\<close>, as after a reload (from the text, through \<^verbatim>\<open>JSON.parse\<close>).
\<close>

theorem storage_round_trip:
  assumes "\<forall>t\<in>set todos. task_record t"
    and "liveTodos s' = None" and "name s' = name s"
    and "localStorage s' = localStorage (setLocalStorage todos s)"
  shows "getLocalStorage (setLocalStorage todos s) = Inr todos \<and> getLocalStorage s' = Inr todos"
proof
  show "getLocalStorage (setLocalStorage todos s) = Inr todos"
    by (rule getLocalStorage_setLocalStorage)
next
  have "localStorage s' (name s') = Some (JSON_stringify todos)"
    using assms(3,4) by (simp add: setLocalStorage_def)
  moreover have "JSON_parse (JSON_stringify todos) = Some todos"
    using assms(1) by (intro JSON_parse_stringify) (simp add: task_record_storable)
  ultimately show "getLocalStorage s' = Inr todos"
    using assms(2) by (simp add: getLocalStorage_def or_else_def JSON_stringify_ne)
qed

theorem storage_round_trip_witness:
  "getLocalStorage store2 = Inr [taskA, taskB]
   \<and> getLocalStorage (initialize None None (localStorage store2)) = Inr [taskA, taskB]"
proof -
  have t: "\<forall>t\<in>set [taskA, taskB]. task_record t"
    by (simp add: task_record_def keys_def js_get_def)
  have a: "liveTodos (initialize None None (localStorage store2)) = None"
    by (simp add: initialize_def)
  have b: "name (initialize None None (localStorage store2)) = name (initialize None None Map.empty)"
    by (simp add: initialize_def)
  have c: "localStorage (initialize None None (localStorage store2)) = localStorage store2"
    by (simp add: initialize_def)
  show ?thesis
    using storage_round_trip [OF t a b c] .
qed

text \<open>
  C10. \<^verbatim>\<open>removeTodo(id)\<close> returns and stores the collection filtered by
  \<^verbatim>\<open>todo.id !== id\<close>: every record with the id is gone, however many there were, and
  the other records stay in their order.
\<close>

theorem removeTodo_filter:
  assumes "getLocalStorage s = Inr todos"
  shows "fst (removeTodo i s) = Inr (filter (\<lambda>t. js_get t ''id'' \<noteq> i) todos)
       \<and> getLocalStorage (snd (removeTodo i s)) = Inr (filter (\<lambda>t. js_get t ''id'' \<noteq> i) todos)"
  using assms by (simp add: removeTodo_def Let_def getLocalStorage_setLocalStorage)

theorem removeTodo_filter_witness:
  "fst (removeTodo (Num 1) (setLocalStorage [taskA, taskB, taskA] (initialize None None Map.empty)))
     = Inr [taskB]
   \<and> getLocalStorage (snd (removeTodo (Num 1)
        (setLocalStorage [taskA, taskB, taskA] (initialize None None Map.empty))))
     = Inr [taskB]"
  using removeTodo_filter [of "setLocalStorage [taskA, taskB, taskA] (initialize None None Map.empty)"
      "[taskA, taskB, taskA]" "Num 1"]
  by (simp add: getLocalStorage_setLocalStorage js_get_def)

end
